theory Spec2Isabelle
  imports Main "HOL-Library.Word"
begin

section \<open>The WebSocket hub and client pump of llamachat\<close>

text \<open>
  A shallow embedding of \<^verbatim>\<open>internal/websocket\<close>: the hub
  (\<^verbatim>\<open>Hub\<close>, \<^verbatim>\<open>registerClient\<close>, \<^verbatim>\<open>unregisterClient\<close>,
  \<^verbatim>\<open>broadcastMessage\<close>, \<^verbatim>\<open>Run\<close>) and the inbound half of the client
  (\<^verbatim>\<open>processMessage\<close>, the three handlers, \<^verbatim>\<open>sendError\<close>).

  Go values are modelled as follows.
  \<^item> \<^verbatim>\<open>[]byte\<close> and \<^verbatim>\<open>json.RawMessage\<close> are byte strings (\<open>string\<close>, a list of
    8-bit characters); \<^verbatim>\<open>uuid.UUID\<close> (16 bytes) is a 128-bit word.
  \<^item> A buffered channel \<^verbatim>\<open>chan []byte\<close> is a record of its queued elements, its
    capacity and its closed flag. Channels are reference values: they live in a store
    indexed by addresses, and a client holds the address of its \<^verbatim>\<open>Send\<close> channel.
  \<^item> A \<^verbatim>\<open>*Client\<close> is the record of the fields the hub reads (\<^verbatim>\<open>ID\<close>,
    \<^verbatim>\<open>UserID\<close>, \<^verbatim>\<open>Send\<close>). These fields are never assigned after
    \<^verbatim>\<open>NewClient\<close>; the only mutable part reachable through the pointer is the channel,
    which is in the store. \<^verbatim>\<open>Socket\<close>, \<^verbatim>\<open>Hub\<close>, \<^verbatim>\<open>mu\<close>, \<^verbatim>\<open>IsActive\<close>,
    \<^verbatim>\<open>JoinedAt\<close> and \<^verbatim>\<open>UserInfo\<close> are not read by any function modelled here.
  \<^item> A Go map is a HOL map; \<^verbatim>\<open>range\<close> over a map visits every key once in an order
    the runtime chooses, which is a parameter of the model.
  \<^item> A call either returns, or parks its goroutine on a channel operation, or panics.
\<close>

subsection \<open>Data\<close>

type_synonym bytes = string
type_synonym uuid = "128 word"
type_synonym addr = nat

record chan =
  ch_buf :: "bytes list"
  ch_cap :: nat
  ch_closed :: bool

record client =
  ID :: string
  UserID :: uuid
  Send :: addr

record broadcast =
  ClientID :: string
  Message :: bytes

record message =
  Type :: string
  Timestamp :: string
  Payload :: bytes

text \<open>
  The hub's two maps together with the channel store. The three request channels of the
  hub are unbuffered; what travels over them is a \<open>request\<close>.
\<close>

record hub =
  clients :: "string \<rightharpoonup> client"
  userClients :: "uuid \<rightharpoonup> string"
  chans :: "addr \<Rightarrow> chan"

datatype request = Register client | Unregister client | Broadcast broadcast

text \<open>
  Where a goroutine can park: on a send to a client's full \<^verbatim>\<open>Send\<close> queue (it resumes
  when the write pump takes an element), or on a send to the hub's unbuffered
  \<^verbatim>\<open>Unregister\<close> channel (it resumes when \<^verbatim>\<open>Run\<close> receives from that channel).
\<close>

datatype wait = SendQueueFull addr | HubUnregister client

datatype 'a outcome = Returned 'a | Blocked wait 'a | Panicked 'a

fun state_of :: "'a outcome \<Rightarrow> 'a" where
  "state_of (Returned s) = s"
| "state_of (Blocked w s) = s"
| "state_of (Panicked s) = s"

subsection \<open>Channel operations\<close>

text \<open>
  \<^verbatim>\<open>ch <- v\<close>: panics on a closed channel, appends when the buffer has room, and
  otherwise cannot proceed. \<^verbatim>\<open>close(ch)\<close> panics on a closed channel.
\<close>

datatype send_result = Sent chan | Full | SendOnClosed

definition chan_send :: "chan \<Rightarrow> bytes \<Rightarrow> send_result" where
  "chan_send ch v =
     (if ch_closed ch then SendOnClosed
      else if length (ch_buf ch) < ch_cap ch then Sent (ch\<lparr>ch_buf := ch_buf ch @ [v]\<rparr>)
      else Full)"

definition chan_close :: "chan \<Rightarrow> chan option" where
  "chan_close ch = (if ch_closed ch then None else Some (ch\<lparr>ch_closed := True\<rparr>))"

definition new_chan :: "nat \<Rightarrow> chan" where
  "new_chan n = \<lparr>ch_buf = [], ch_cap = n, ch_closed = False\<rparr>"

subsection \<open>The hub\<close>

definition NewHub :: "(addr \<Rightarrow> chan) \<Rightarrow> hub" where
  "NewHub store = \<lparr>clients = Map.empty, userClients = Map.empty, chans = store\<rparr>"

text \<open>\<^verbatim>\<open>NewClient\<close> allocates the \<^verbatim>\<open>Send\<close> channel with capacity 256 at address \<open>a\<close>.\<close>

definition NewClient :: "string \<Rightarrow> uuid \<Rightarrow> addr \<Rightarrow> hub \<Rightarrow> client \<times> hub" where
  "NewClient cid uid a s =
     (\<lparr>ID = cid, UserID = uid, Send = a\<rparr>, s\<lparr>chans := (chans s)(a := new_chan 256)\<rparr>)"

text \<open>Both notification functions have an empty body.\<close>

definition notifyUserJoin :: "client \<Rightarrow> hub \<Rightarrow> hub" where
  "notifyUserJoin c s = s"

definition notifyUserLeave :: "client \<Rightarrow> hub \<Rightarrow> hub" where
  "notifyUserLeave c s = s"

definition registerClient :: "client \<Rightarrow> hub \<Rightarrow> hub outcome" where
  "registerClient c s =
     Returned (notifyUserJoin c
       (s\<lparr>clients := (clients s)(ID c \<mapsto> c),
          userClients := (userClients s)(UserID c \<mapsto> ID c)\<rparr>))"

definition unregisterClient :: "client \<Rightarrow> hub \<Rightarrow> hub outcome" where
  "unregisterClient c s =
     (case clients s (ID c) of
        Some _ \<Rightarrow>
          (let s1 = s\<lparr>clients := (clients s)(ID c := None),
                       userClients := (userClients s)(UserID c := None)\<rparr>
           in case chan_close (chans s1 (Send c)) of
                None \<Rightarrow> Panicked s1
              | Some ch \<Rightarrow>
                  Returned (notifyUserLeave c (s1\<lparr>chans := (chans s1)(Send c := ch)\<rparr>)))
      | None \<Rightarrow> Returned s)"

text \<open>
  The body of \<^verbatim>\<open>broadcastMessage\<close>'s loop over the keys \<open>ids\<close> still to be visited.
  In the \<^verbatim>\<open>default\<close> branch the channel is closed and the hub then sends the client on
  its own unbuffered \<^verbatim>\<open>Unregister\<close> channel. The only receiver of that channel is the
  \<^verbatim>\<open>select\<close> of \<^verbatim>\<open>Run\<close>, and the server starts \<^verbatim>\<open>Run\<close> once, so the sender is
  the one goroutine that could receive: the send never completes.
\<close>

fun broadcastLoop :: "broadcast \<Rightarrow> string list \<Rightarrow> hub \<Rightarrow> hub outcome" where
  "broadcastLoop b [] s = Returned s"
| "broadcastLoop b (i # ids) s =
     (case clients s i of
        None \<Rightarrow> broadcastLoop b ids s
      | Some c \<Rightarrow>
          if i \<noteq> ClientID b then
            (case chan_send (chans s (Send c)) (Message b) of
               Sent ch \<Rightarrow> broadcastLoop b ids (s\<lparr>chans := (chans s)(Send c := ch)\<rparr>)
             | SendOnClosed \<Rightarrow> Panicked s
             | Full \<Rightarrow>
                 (case chan_close (chans s (Send c)) of
                    None \<Rightarrow> Panicked s
                  | Some ch \<Rightarrow> Blocked (HubUnregister c) (s\<lparr>chans := (chans s)(Send c := ch)\<rparr>)))
          else broadcastLoop b ids s)"

text \<open>A \<^verbatim>\<open>range\<close> order for a map: every key exactly once.\<close>

definition range_order :: "hub \<Rightarrow> string list \<Rightarrow> bool" where
  "range_order s order \<longleftrightarrow> distinct order \<and> set order = dom (clients s)"

definition broadcastMessage :: "string list \<Rightarrow> broadcast \<Rightarrow> hub \<Rightarrow> hub outcome" where
  "broadcastMessage order b s = broadcastLoop b order s"

text \<open>
  One iteration of \<^verbatim>\<open>Run\<close>'s \<^verbatim>\<open>select\<close> for the request received, and the loop over the
  requests in the order they are received. \<open>order\<close> is the \<^verbatim>\<open>range\<close> order the runtime
  picks should the request be a broadcast. A panic ends the process and a hub parked on
  its own channel receives nothing more, so the loop stops at the first call that does not
  return.
\<close>

fun handle :: "string list \<Rightarrow> request \<Rightarrow> hub \<Rightarrow> hub outcome" where
  "handle order (Register c) s = registerClient c s"
| "handle order (Unregister c) s = unregisterClient c s"
| "handle order (Broadcast b) s = broadcastMessage order b s"

fun Run :: "(string list \<times> request) list \<Rightarrow> hub \<Rightarrow> hub outcome" where
  "Run [] s = Returned s"
| "Run ((order, r) # rs) s =
     (case handle order r s of
        Returned s' \<Rightarrow> Run rs s'
      | Blocked w s' \<Rightarrow> Blocked w s'
      | Panicked s' \<Rightarrow> Panicked s')"

subsection \<open>The inbound pump of a client\<close>

definition EventTypeMessage :: string where "EventTypeMessage = ''message''"
definition EventTypeUserJoin :: string where "EventTypeUserJoin = ''user_join''"
definition EventTypeUserLeave :: string where "EventTypeUserLeave = ''user_leave''"
definition EventTypeTyping :: string where "EventTypeTyping = ''typing''"
definition EventTypeReadReceipt :: string where "EventTypeReadReceipt = ''read_receipt''"
definition EventTypeError :: string where "EventTypeError = ''error''"

text \<open>
  \<^verbatim>\<open>json.Unmarshal\<close> and \<^verbatim>\<open>json.Marshal\<close> belong to Go's standard library, and
  \<^verbatim>\<open>time.Now\<close> to the environment: they are parameters. \<open>unmarshal\<close> gives the decoded
  \<^verbatim>\<open>Message\<close> or fails; \<open>marshal\<close> gives the encoded bytes or fails; \<open>now\<close> is the
  current time.

  The handlers send on the hub's unbuffered \<^verbatim>\<open>Broadcast\<close> channel. A handler is modelled
  by the list of requests it hands to the hub, in order.
\<close>

definition handleChatMessage :: "client \<Rightarrow> bytes \<Rightarrow> request list" where
  "handleChatMessage c payload = [Broadcast \<lparr>ClientID = ID c, Message = payload\<rparr>]"

definition handleTypingEvent :: "client \<Rightarrow> bytes \<Rightarrow> request list" where
  "handleTypingEvent c payload = [Broadcast \<lparr>ClientID = ID c, Message = payload\<rparr>]"

definition handleReadReceipt :: "client \<Rightarrow> bytes \<Rightarrow> request list" where
  "handleReadReceipt c payload = []"

definition error_payload :: "string \<Rightarrow> bytes" where
  \<open>error_payload errMsg = ''{"error":"'' @ errMsg @ ''"}''\<close>

text \<open>\<^verbatim>\<open>sendError\<close> ends with the plain send \<^verbatim>\<open>c.Send <- data\<close>.\<close>

definition sendError ::
  "(message \<Rightarrow> bytes option) \<Rightarrow> string \<Rightarrow> client \<Rightarrow> string \<Rightarrow> hub \<Rightarrow> hub outcome" where
  "sendError marshal now c errMsg s =
     (let msg = \<lparr>Type = EventTypeError, Timestamp = now, Payload = error_payload errMsg\<rparr>
      in case marshal msg of
           None \<Rightarrow> Returned s
         | Some data \<Rightarrow>
             (case chan_send (chans s (Send c)) data of
                Sent ch \<Rightarrow> Returned (s\<lparr>chans := (chans s)(Send c := ch)\<rparr>)
              | Full \<Rightarrow> Blocked (SendQueueFull (Send c)) s
              | SendOnClosed \<Rightarrow> Panicked s))"

fun with_requests :: "request list \<Rightarrow> hub outcome \<Rightarrow> (request list \<times> hub) outcome" where
  "with_requests rs (Returned s) = Returned (rs, s)"
| "with_requests rs (Blocked w s) = Blocked w (rs, s)"
| "with_requests rs (Panicked s) = Panicked (rs, s)"

text \<open>
  \<^verbatim>\<open>processMessage\<close>: the requests handed to the hub and the state after the call.
\<close>

definition processMessage ::
  "(bytes \<Rightarrow> message option) \<Rightarrow> (message \<Rightarrow> bytes option) \<Rightarrow> string \<Rightarrow>
   client \<Rightarrow> bytes \<Rightarrow> hub \<Rightarrow> (request list \<times> hub) outcome" where
  "processMessage unmarshal marshal now c data s =
     (case unmarshal data of
        None \<Rightarrow> with_requests [] (sendError marshal now c ''Invalid message format'' s)
      | Some msg \<Rightarrow>
          if Type msg = EventTypeMessage then Returned (handleChatMessage c (Payload msg), s)
          else if Type msg = EventTypeTyping then Returned (handleTypingEvent c (Payload msg), s)
          else if Type msg = EventTypeReadReceipt then Returned (handleReadReceipt c (Payload msg), s)
          else with_requests [] (sendError marshal now c ''Unknown message type'' s))"

text \<open>
  One frame end to end: the pump of \<open>c\<close> processes the frame, then the hub receives and
  handles what the pump handed over, using \<open>order\<close> for its \<^verbatim>\<open>range\<close>.
\<close>

fun hub_receives :: "string list \<Rightarrow> (request list \<times> hub) outcome \<Rightarrow> hub outcome" where
  "hub_receives order (Returned (rs, s)) = Run (map (Pair order) rs) s"
| "hub_receives order (Blocked w (rs, s)) = Blocked w s"
| "hub_receives order (Panicked (rs, s)) = Panicked s"

definition inbound_frame ::
  "(bytes \<Rightarrow> message option) \<Rightarrow> (message \<Rightarrow> bytes option) \<Rightarrow> string \<Rightarrow>
   string list \<Rightarrow> client \<Rightarrow> bytes \<Rightarrow> hub \<Rightarrow> hub outcome" where
  "inbound_frame unmarshal marshal now order c data s =
     hub_receives order (processMessage unmarshal marshal now c data s)"

subsection \<open>Observations and sample values\<close>

text \<open>The outbound queue of the connection registered under an ID.\<close>

definition queue_of :: "hub \<Rightarrow> string \<Rightarrow> bytes list" where
  "queue_of s i = (case clients s i of None \<Rightarrow> [] | Some c \<Rightarrow> ch_buf (chans s (Send c)))"

text \<open>The two membership structures agree: the keys of one are the values of the other.\<close>

definition consistent :: "hub \<Rightarrow> bool" where
  "consistent s \<longleftrightarrow> (\<forall>i. (i \<in> dom (clients s)) = (i \<in> ran (userClients s)))"

text \<open>Channels as \<^verbatim>\<open>NewClient\<close> leaves them, and three connections of two users.\<close>

definition fresh_store :: "addr \<Rightarrow> chan" where
  "fresh_store = (\<lambda>a. new_chan 256)"

definition conn_a :: client where
  "conn_a = \<lparr>ID = ''A'', UserID = 1, Send = 0\<rparr>"

definition conn_b :: client where
  "conn_b = \<lparr>ID = ''B'', UserID = 2, Send = 1\<rparr>"

definition conn_a2 :: client where
  "conn_a2 = \<lparr>ID = ''A2'', UserID = 1, Send = 2\<rparr>"

definition conn_c :: client where
  "conn_c = \<lparr>ID = ''C'', UserID = 3, Send = 3\<rparr>"

text \<open>
  The hub after A, B and C have registered, and the same hub once B's queue has filled up
  (B's write pump has fallen behind; the write pumps of the others have emptied theirs).
\<close>

definition trio :: hub where
  "trio = state_of (Run [([], Register conn_a), ([], Register conn_b), ([], Register conn_c)]
                     (NewHub fresh_store))"

definition jam :: hub where
  "jam = trio\<lparr>chans := (chans trio)(Send conn_b :=
           \<lparr>ch_buf = replicate 256 ''m'', ch_cap = 256, ch_closed = False\<rparr>)\<rparr>"

text \<open>The hub after A and B have registered.\<close>

definition duo :: hub where
  "duo = state_of (Run [([], Register conn_a), ([], Register conn_b)] (NewHub fresh_store))"

text \<open>
  The frame of the end-to-end scenario and its payload. \<^verbatim>\<open>json.Unmarshal\<close> stores into
  \<^verbatim>\<open>Message\<close> the type, the zero time (the frame carries no timestamp) and, in the
  \<^verbatim>\<open>json.RawMessage\<close> field, the bytes of the payload value as they stand in the frame;
  \<open>unmarshal_hi\<close> is the decoder restricted to this frame.
\<close>

definition frame_hi :: bytes where
  \<open>frame_hi = ''{"type":"message","payload":{"text":"hi"}}''\<close>

definition payload_hi :: bytes where
  \<open>payload_hi = ''{"text":"hi"}''\<close>

definition decoded_hi :: message where
  "decoded_hi = \<lparr>Type = ''message'', Timestamp = ''0001-01-01T00:00:00Z'', Payload = payload_hi\<rparr>"

definition unmarshal_hi :: "bytes \<Rightarrow> message option" where
  "unmarshal_hi data = (if data = frame_hi then Some decoded_hi else None)"



subsection \<open>One live connection per user\<close>

text \<open>
  A request keeps to one live connection per user, in the state in which the hub receives
  it, when: a Register comes for a user with no other connection registered, under an ID
  that no connection of another user holds; an Unregister names the connection that is
  registered under its ID, if any. A run keeps to it when each request does.
\<close>

fun single_session :: "hub \<Rightarrow> request \<Rightarrow> bool" where
  "single_session s (Register c) =
     (\<forall>i c'. clients s i = Some c' \<longrightarrow> (UserID c' = UserID c) = (i = ID c))"
| "single_session s (Unregister c) =
     (\<forall>c'. clients s (ID c) = Some c' \<longrightarrow> UserID c' = UserID c)"
| "single_session s (Broadcast b) = True"

fun single_session_run :: "(string list \<times> request) list \<Rightarrow> hub \<Rightarrow> bool" where
  "single_session_run [] s = True"
| "single_session_run ((order, r) # rs) s =
     (single_session s r \<and>
      (case handle order r s of
         Returned s' \<Rightarrow> single_session_run rs s'
       | Blocked w s' \<Rightarrow> True
       | Panicked s' \<Rightarrow> True))"

text \<open>
  The user index is exact: every registered connection is filed under its own ID and is
  the entry of its user, and every entry of the index is the ID of a registered connection
  of that user.
\<close>

definition index_exact :: "hub \<Rightarrow> bool" where
  "index_exact s \<longleftrightarrow>
     (\<forall>i c. clients s i = Some c \<longrightarrow> ID c = i \<and> userClients s (UserID c) = Some i) \<and>
     (\<forall>u i. userClients s u = Some i \<longrightarrow> (\<exists>c. clients s i = Some c \<and> UserID c = u))"

text \<open>A run in which user 1 reconnects under a new ID after the first connection is gone.\<close>

definition evs0 :: "(string list \<times> request) list" where
  "evs0 = [([], Register conn_a), ([], Register conn_b), ([], Unregister conn_a),
           ([], Register conn_a2), ([], Unregister conn_b)]"

subsection \<open>Conditions on a hub state for fan-out\<close>

text \<open>
  \<^verbatim>\<open>NewClient\<close> makes a channel for each client, so distinct registered connections
  have distinct \<^verbatim>\<open>Send\<close> queues.
\<close>

definition own_queues :: "hub \<Rightarrow> bool" where
  "own_queues s \<longleftrightarrow>
     (\<forall>i j c d. clients s i = Some c \<and> clients s j = Some d \<and> Send c = Send d \<longrightarrow> i = j)"

text \<open>
  No overflow: every registered connection other than \<open>origin\<close> has an open queue that
  takes \<open>k\<close> more elements.
\<close>

definition room :: "hub \<Rightarrow> string \<Rightarrow> nat \<Rightarrow> bool" where
  "room s origin k \<longleftrightarrow>
     (\<forall>i c. clients s i = Some c \<and> i \<noteq> origin \<longrightarrow>
        \<not> ch_closed (chans s (Send c)) \<and>
        length (ch_buf (chans s (Send c))) + k \<le> ch_cap (chans s (Send c)))"

text \<open>
  Each registered connection has its own queue, and that queue is open. This holds of an
  empty hub and stays true as long as the hub returns from its requests, when each
  Register brings a connection as \<^verbatim>\<open>Handler\<close> makes it (a new ID, a new open channel)
  and each Unregister names the connection registered under its ID.
\<close>

definition sound_queues :: "hub \<Rightarrow> bool" where
  "sound_queues s \<longleftrightarrow>
     own_queues s \<and> (\<forall>i c. clients s i = Some c \<longrightarrow> \<not> ch_closed (chans s (Send c)))"

fun as_made :: "hub \<Rightarrow> request \<Rightarrow> bool" where
  "as_made s (Register c) =
     (clients s (ID c) = None \<and> \<not> ch_closed (chans s (Send c)) \<and>
      (\<forall>i d. clients s i = Some d \<longrightarrow> Send d \<noteq> Send c))"
| "as_made s (Unregister c) = (\<forall>d. clients s (ID c) = Some d \<longrightarrow> d = c)"
| "as_made s (Broadcast b) = True"

text \<open>Every queue that a loop over \<open>ids\<close> sends to is open and not full.\<close>

definition can_take :: "hub \<Rightarrow> broadcast \<Rightarrow> string list \<Rightarrow> bool" where
  "can_take s b ids \<longleftrightarrow>
     (\<forall>i\<in>set ids. \<forall>c. clients s i = Some c \<and> i \<noteq> ClientID b \<longrightarrow>
        \<not> ch_closed (chans s (Send c)) \<and>
        length (ch_buf (chans s (Send c))) < ch_cap (chans s (Send c)))"

definition appended :: "chan \<Rightarrow> bytes \<Rightarrow> chan" where
  "appended ch v = ch\<lparr>ch_buf := ch_buf ch @ [v]\<rparr>"

text \<open>The queues that a loop over \<open>ids\<close> sends to.\<close>

definition targets :: "hub \<Rightarrow> broadcast \<Rightarrow> string list \<Rightarrow> addr set" where
  "targets s b ids = {a. \<exists>i c. i \<in> set ids \<and> i \<noteq> ClientID b \<and> clients s i = Some c \<and> Send c = a}"

text \<open>Successive Broadcast requests of one origin, each with the \<^verbatim>\<open>range\<close> order it meets.\<close>

definition broadcasts_from :: "string \<Rightarrow> (string list \<times> bytes) list \<Rightarrow> (string list \<times> request) list" where
  "broadcasts_from origin oms =
     map (\<lambda>(order, m). (order, Broadcast \<lparr>ClientID = origin, Message = m\<rparr>)) oms"

section \<open>Unregister\<close>

lemma unregisterClient_absent:
  "clients s (ID c) = None \<Longrightarrow> unregisterClient c s = Returned s"
  by (simp add: unregisterClient_def)

lemma unregisterClient_removes:
  "unregisterClient c s = Returned s' \<Longrightarrow> clients s' (ID c) = None"
  by (auto simp: unregisterClient_def notifyUserLeave_def Let_def split: option.splits)

text \<open>
  C9. Unregister is idempotent. Processing an Unregister request for a connection whose ID
  is not a key of the clients map returns normally and leaves the whole hub state (both
  maps and every channel) as it was; hence when a first Unregister of a connection has
  returned, a second one for the same connection changes nothing and returns as well.
\<close>

theorem C9_unregister_idempotent:
  "(clients s (ID c) = None \<longrightarrow> handle order (Unregister c) s = Returned s) \<and>
   (handle order (Unregister c) s = Returned s' \<longrightarrow> handle order' (Unregister c) s' = Returned s')"
  by (simp add: unregisterClient_absent unregisterClient_removes)

theorem C9_unregister_idempotent_witness:
  "clients (NewHub fresh_store) (ID conn_a) = None \<and>
   handle [] (Unregister conn_a) (NewHub fresh_store) = Returned (NewHub fresh_store) \<and>
   (\<exists>s s'. handle [] (Register conn_a) (NewHub fresh_store) = Returned s \<and>
      handle [] (Unregister conn_a) s = Returned s' \<and> s' \<noteq> s \<and>
      handle [] (Unregister conn_a) s' = Returned s')"
proof -
  let ?s = "\<lparr>clients = [''A'' \<mapsto> conn_a], userClients = [1 \<mapsto> ''A''], chans = fresh_store\<rparr>"
  let ?s' = "\<lparr>clients = Map.empty, userClients = Map.empty,
              chans = fresh_store(0 := \<lparr>ch_buf = [], ch_cap = 256, ch_closed = True\<rparr>)\<rparr>"
  have absent: "clients (NewHub fresh_store) (ID conn_a) = None"
    by (simp add: NewHub_def)
  have reg: "handle [] (Register conn_a) (NewHub fresh_store) = Returned ?s"
    by (simp add: registerClient_def notifyUserJoin_def NewHub_def conn_a_def)
  have unreg: "handle [] (Unregister conn_a) ?s = Returned ?s'"
    by (simp add: unregisterClient_def notifyUserLeave_def chan_close_def fresh_store_def
        new_chan_def conn_a_def)
  have ne: "?s' \<noteq> ?s"
    by (simp add: fun_eq_iff)
  from C9_unregister_idempotent [of "NewHub fresh_store" conn_a "[]" "NewHub fresh_store" "[]"] absent
  have first: "handle [] (Unregister conn_a) (NewHub fresh_store) = Returned (NewHub fresh_store)"
    by simp
  from C9_unregister_idempotent [of ?s conn_a "[]" ?s' "[]"] unreg
  have again: "handle [] (Unregister conn_a) ?s' = Returned ?s'"
    by simp
  from absent first reg unreg ne again show ?thesis
    by blast
qed

section \<open>Register\<close>

lemma registerClient_eq:
  "registerClient c s =
     Returned (s\<lparr>clients := (clients s)(ID c \<mapsto> c),
                 userClients := (userClients s)(UserID c \<mapsto> ID c)\<rparr>)"
  by (simp add: registerClient_def notifyUserJoin_def)






section \<open>Consistency of the two membership structures\<close>

lemma broadcastLoop_maps:
  "clients (state_of (broadcastLoop b ids s)) = clients s \<and>
   userClients (state_of (broadcastLoop b ids s)) = userClients s"
  by (induction ids arbitrary: s) (auto split: option.splits send_result.splits)

text \<open>
  C1, as the spec has it, fails: the user index holds one connection ID per user. When a
  second connection of user 1 registers, the first stays a key of the clients map and is
  no longer a value of the index.
\<close>

theorem C1_counterexample:
  "\<not> consistent (state_of (Run [([], Register conn_a), ([], Register conn_a2)] (NewHub fresh_store)))"
proof -
  have "Run [([], Register conn_a), ([], Register conn_a2)] (NewHub fresh_store) =
     Returned \<lparr>clients = [''A'' \<mapsto> conn_a, ''A2'' \<mapsto> conn_a2], userClients = [1 \<mapsto> ''A2''], chans = fresh_store\<rparr>"
    by (simp add: registerClient_eq NewHub_def conn_a_def conn_a2_def)
  moreover have "''A'' \<in> dom [''A'' \<mapsto> conn_a, ''A2'' \<mapsto> conn_a2]" by simp
  moreover have "''A'' \<notin> ran [(1::uuid) \<mapsto> ''A2'']" by simp
  ultimately show ?thesis
    unfolding consistent_def by (metis hub.select_convs(1,2) state_of.simps(1))
qed

lemma index_exact_consistent: "index_exact s \<Longrightarrow> consistent s"
  unfolding index_exact_def consistent_def dom_def ran_def by blast

lemma index_exact_NewHub: "index_exact (NewHub store)"
  by (simp add: index_exact_def NewHub_def)

lemma index_exactI:
  assumes "\<And>i c. clients s i = Some c \<Longrightarrow> ID c = i \<and> userClients s (UserID c) = Some i"
    and "\<And>u i. userClients s u = Some i \<Longrightarrow> \<exists>c. clients s i = Some c \<and> UserID c = u"
  shows "index_exact s"
  unfolding index_exact_def using assms by blast

lemma index_exact_register:
  assumes ex: "index_exact s" and ss: "single_session s (Register c)"
  shows "index_exact (state_of (registerClient c s))"
proof -
  let ?t = "state_of (registerClient c s)"
  have cl: "clients ?t = (clients s)(ID c \<mapsto> c)"
    and uc: "userClients ?t = (userClients s)(UserID c \<mapsto> ID c)"
    by (simp_all add: registerClient_eq)
  from ex have fwd: "\<And>i c'. clients s i = Some c' \<Longrightarrow> ID c' = i \<and> userClients s (UserID c') = Some i"
    and bwd: "\<And>u i. userClients s u = Some i \<Longrightarrow> \<exists>c'. clients s i = Some c' \<and> UserID c' = u"
    unfolding index_exact_def by blast+
  from ss have one: "\<And>i c'. clients s i = Some c' \<Longrightarrow> (UserID c' = UserID c) = (i = ID c)"
    by simp
  show ?thesis
  proof (rule index_exactI)
    fix i c'
    assume a: "clients ?t i = Some c'"
    show "ID c' = i \<and> userClients ?t (UserID c') = Some i"
    proof (cases "i = ID c")
      case True
      with a cl have "c' = c" by simp
      with True uc show ?thesis by simp
    next
      case False
      with a cl have reg: "clients s i = Some c'" by simp
      from one [OF reg] False have "UserID c' \<noteq> UserID c" by blast
      moreover note fwd [OF reg]
      ultimately show ?thesis by (simp only: uc fun_upd_other simp_thms)
    qed
  next
    fix u i
    assume a: "userClients ?t u = Some i"
    show "\<exists>c'. clients ?t i = Some c' \<and> UserID c' = u"
    proof (cases "u = UserID c")
      case True
      with a uc have "i = ID c" by simp
      with True cl show ?thesis by simp
    next
      case False
      with a uc have "userClients s u = Some i" by simp
      from bwd [OF this] obtain c' where reg: "clients s i = Some c'" and u: "UserID c' = u"
        by blast
      from one [OF reg] u False have "i \<noteq> ID c" by blast
      with reg have "clients ?t i = Some c'" by (simp add: cl)
      with u show ?thesis by blast
    qed
  qed
qed

lemma index_exact_delete:
  assumes ex: "index_exact s" and ss: "single_session s (Unregister c)"
    and present: "clients s (ID c) = Some c0"
    and cl: "clients t = (clients s)(ID c := None)"
    and uc: "userClients t = (userClients s)(UserID c := None)"
  shows "index_exact t"
proof -
  from ex have fwd: "\<And>i c'. clients s i = Some c' \<Longrightarrow> ID c' = i \<and> userClients s (UserID c') = Some i"
    and bwd: "\<And>u i. userClients s u = Some i \<Longrightarrow> \<exists>c'. clients s i = Some c' \<and> UserID c' = u"
    unfolding index_exact_def by blast+
  from ss present have same: "UserID c0 = UserID c"
    by simp
  from fwd [OF present] same have entry: "userClients s (UserID c) = Some (ID c)"
    by simp
  show ?thesis
  proof (rule index_exactI)
    fix i c'
    assume a: "clients t i = Some c'"
    with cl have ne: "i \<noteq> ID c"
      by (cases "i = ID c") simp_all
    with a cl have reg: "clients s i = Some c'" by simp
    have "UserID c' \<noteq> UserID c"
    proof
      assume "UserID c' = UserID c"
      with fwd [OF reg] entry have "i = ID c" by simp
      with ne show False by blast
    qed
    moreover note fwd [OF reg]
    ultimately show "ID c' = i \<and> userClients t (UserID c') = Some i"
      by (simp only: uc fun_upd_other simp_thms)
  next
    fix u i
    assume a: "userClients t u = Some i"
    with uc have ne: "u \<noteq> UserID c"
      by (cases "u = UserID c") simp_all
    with a uc have idx: "userClients s u = Some i" by simp
    from bwd [OF idx] obtain c' where reg: "clients s i = Some c'" and u: "UserID c' = u"
      by blast
    have "i \<noteq> ID c"
    proof
      assume "i = ID c"
      with reg present have "c' = c0" by simp
      with same u ne show False by blast
    qed
    with reg have "clients t i = Some c'" by (simp add: cl)
    with u show "\<exists>c'. clients t i = Some c' \<and> UserID c' = u" by blast
  qed
qed

lemma index_exact_unregister:
  assumes "index_exact s" and "single_session s (Unregister c)"
  shows "index_exact (state_of (unregisterClient c s))"
proof (cases "clients s (ID c)")
  case None
  with assms(1) show ?thesis by (simp add: unregisterClient_def)
next
  case (Some c0)
  let ?t = "state_of (unregisterClient c s)"
  from Some have "clients ?t = (clients s)(ID c := None)"
    and "userClients ?t = (userClients s)(UserID c := None)"
    by (simp_all add: unregisterClient_def notifyUserLeave_def Let_def split: option.splits)
  with assms Some show ?thesis
    by (rule index_exact_delete)
qed

lemma index_exact_broadcast:
  "index_exact s \<Longrightarrow> index_exact (state_of (broadcastLoop b ids s))"
  unfolding index_exact_def by (simp add: broadcastLoop_maps)

lemma index_exact_handle:
  "index_exact s \<Longrightarrow> single_session s r \<Longrightarrow> index_exact (state_of (handle order r s))"
  by (cases r) (simp_all only: handle.simps index_exact_register index_exact_unregister
      index_exact_broadcast broadcastMessage_def)

lemma index_exact_Run:
  "index_exact s \<Longrightarrow> single_session_run evs s \<Longrightarrow> index_exact (state_of (Run (take n evs) s))"
proof (induction evs arbitrary: s n)
  case Nil
  then show ?case by simp
next
  case (Cons ev evs)
  obtain order r where ev: "ev = (order, r)" by (cases ev)
  show ?case
  proof (cases n)
    case 0
    with Cons.prems show ?thesis by simp
  next
    case (Suc m)
    from Cons.prems ev have ok: "single_session s r" by simp
    have step: "index_exact (state_of (handle order r s))"
      by (rule index_exact_handle [OF Cons.prems(1) ok])
    show ?thesis
    proof (cases "handle order r s")
      case (Returned s')
      with Cons.prems ev have "single_session_run evs s'" by simp
      moreover from step Returned have "index_exact s'" by simp
      ultimately have "index_exact (state_of (Run (take m evs) s'))"
        by (rule Cons.IH [rotated])
      with Returned ev Suc show ?thesis by simp
    next
      case (Blocked w s')
      with step ev Suc show ?thesis by simp
    next
      case (Panicked s')
      with step ev Suc show ?thesis by simp
    qed
  qed
qed

text \<open>
  C1, as the code has it. Take any sequence of requests processed from the empty hub in
  which users keep to one live connection: each Register comes for a user with no other
  connection registered and under an ID held by no other user's connection, and each
  Unregister names the connection registered under its ID. Then after each operation the
  two membership structures are mutually consistent: a connection ID is a key of the
  clients map if and only if it is the value of some entry of the user index.
\<close>

theorem C1_consistent_single_session:
  assumes "single_session_run evs (NewHub store)"
  shows "\<forall>n. consistent (state_of (Run (take n evs) (NewHub store)))"
  using assms index_exact_Run [OF index_exact_NewHub] index_exact_consistent by blast

theorem C1_consistent_single_session_witness:
  "single_session_run evs0 (NewHub fresh_store) \<and>
   (\<forall>n. consistent (state_of (Run (take n evs0) (NewHub fresh_store))))"
proof -
  have ok: "single_session_run evs0 (NewHub fresh_store)"
    by (simp add: evs0_def NewHub_def registerClient_eq unregisterClient_def notifyUserLeave_def
        chan_close_def fresh_store_def new_chan_def conn_a_def conn_b_def conn_a2_def)
  from ok C1_consistent_single_session [OF ok] show ?thesis by blast
qed

section \<open>A user with two connections\<close>

text \<open>
  C10. When two connections of one user register one after the other, the user index
  holds the second one's ID. Processing Unregister for the first then deletes the user's
  index entry although its value is the second connection's ID, and the second connection
  stays in the clients map: the user is absent from the index while still connected.
\<close>

theorem C10_unregister_drops_live_user:
  assumes "UserID c1 = UserID c2" and "ID c1 \<noteq> ID c2"
  shows "\<exists>s2. Run [(o1, Register c1), (o2, Register c2)] s = Returned s2 \<and>
           userClients s2 (UserID c2) = Some (ID c2) \<and>
           userClients (state_of (handle o3 (Unregister c1) s2)) (UserID c2) = None \<and>
           clients (state_of (handle o3 (Unregister c1) s2)) (ID c2) = Some c2"
  using assms
  by (simp add: registerClient_eq unregisterClient_def notifyUserLeave_def Let_def split: option.splits)

theorem C10_unregister_drops_live_user_witness:
  "UserID conn_a = UserID conn_a2 \<and> ID conn_a \<noteq> ID conn_a2 \<and>
   (\<exists>s2. Run [([], Register conn_a), ([], Register conn_a2)] (NewHub fresh_store) = Returned s2 \<and>
           userClients s2 (UserID conn_a2) = Some (ID conn_a2) \<and>
           userClients (state_of (handle [] (Unregister conn_a) s2)) (UserID conn_a2) = None \<and>
           clients (state_of (handle [] (Unregister conn_a) s2)) (ID conn_a2) = Some conn_a2)"
proof -
  have u: "UserID conn_a = UserID conn_a2" by (simp add: conn_a_def conn_a2_def)
  have i: "ID conn_a \<noteq> ID conn_a2" by (simp add: conn_a_def conn_a2_def)
  from u i C10_unregister_drops_live_user [OF u i, of "[]" "[]" "NewHub fresh_store" "[]"]
  show ?thesis by simp
qed

section \<open>Presence on Register\<close>

text \<open>
  C6 at a concrete run: A registers, then B of another user registers. The body of
  \<^verbatim>\<open>notifyUserJoin\<close> is empty, so nothing is put on A's outbound queue: it is
  empty after B's Register has been processed, where the claim expects one
  \<^verbatim>\<open>user_join\<close> envelope.
\<close>

theorem C6_register_enqueues_nothing:
  "\<exists>s. Run [([], Register conn_a), ([], Register conn_b)] (NewHub fresh_store) = Returned s \<and>
       clients s ''A'' = Some conn_a \<and> clients s ''B'' = Some conn_b \<and>
       UserID conn_a \<noteq> UserID conn_b \<and> queue_of s ''A'' = []"
  by (simp add: registerClient_eq NewHub_def conn_a_def conn_b_def queue_of_def fresh_store_def new_chan_def)

section \<open>Fan-out without overflow\<close>

lemma targets_cong: "clients t = clients s \<Longrightarrow> targets t b ids = targets s b ids"
  by (simp add: targets_def)

lemma targets_Nil: "targets s b [] = {}"
  by (simp add: targets_def)

lemma targets_skip:
  "clients s i = None \<or> i = ClientID b \<Longrightarrow> targets s b (i # ids) = targets s b ids"
  by (auto simp: targets_def)

lemma targets_Cons:
  "clients s i = Some c \<Longrightarrow> i \<noteq> ClientID b \<Longrightarrow>
   targets s b (i # ids) = insert (Send c) (targets s b ids)"
  by (auto simp: targets_def)

lemma targets_fresh:
  assumes "own_queues s" and "clients s i = Some c" and "i \<notin> set ids"
  shows "Send c \<notin> targets s b ids"
  using assms unfolding own_queues_def targets_def by blast

text \<open>
  The loop over distinct keys returns when every queue it sends to is open and not full,
  and it has then appended the message to exactly those queues.
\<close>

lemma broadcastLoop_delivers:
  assumes "distinct ids" and "own_queues s"
    and "\<forall>i\<in>set ids. \<forall>c. clients s i = Some c \<and> i \<noteq> ClientID b \<longrightarrow>
           \<not> ch_closed (chans s (Send c)) \<and>
           length (ch_buf (chans s (Send c))) < ch_cap (chans s (Send c))"
  shows "\<exists>s'. broadcastLoop b ids s = Returned s' \<and> clients s' = clients s \<and>
           userClients s' = userClients s \<and>
           (\<forall>a. chans s' a = (if a \<in> targets s b ids then appended (chans s a) (Message b)
                               else chans s a))"
  using assms
proof (induction ids arbitrary: s)
  case Nil
  then show ?case by (simp add: targets_Nil)
next
  case (Cons i ids)
  from Cons.prems(1) have fresh: "i \<notin> set ids" and dist: "distinct ids" by simp_all
  show ?case
  proof (cases "clients s i = None \<or> i = ClientID b")
    case True
    have "\<exists>s'. broadcastLoop b ids s = Returned s' \<and> clients s' = clients s \<and>
           userClients s' = userClients s \<and>
           (\<forall>a. chans s' a = (if a \<in> targets s b ids then appended (chans s a) (Message b)
                               else chans s a))"
      using dist Cons.prems(2,3) by (intro Cons.IH) simp_all
    moreover from True have "broadcastLoop b (i # ids) s = broadcastLoop b ids s"
      by (auto split: option.splits)
    ultimately show ?thesis
      by (simp only: targets_skip [OF True])
  next
    case False
    then obtain c where c: "clients s i = Some c" and ne: "i \<noteq> ClientID b" by auto
    let ?ch = "appended (chans s (Send c)) (Message b)"
    let ?s1 = "s\<lparr>chans := (chans s)(Send c := ?ch)\<rparr>"
    from Cons.prems(3) c ne have ok: "\<not> ch_closed (chans s (Send c))"
      "length (ch_buf (chans s (Send c))) < ch_cap (chans s (Send c))"
      by simp_all
    then have send: "chan_send (chans s (Send c)) (Message b) = Sent ?ch"
      by (simp add: chan_send_def appended_def)
    have step: "broadcastLoop b (i # ids) s = broadcastLoop b ids ?s1"
      using c ne send by simp
    have cl1: "clients ?s1 = clients s" by simp
    have notin: "Send c \<notin> targets s b ids"
      by (rule targets_fresh [OF Cons.prems(2) c fresh])
    have other: "chans ?s1 (Send d) = chans s (Send d)"
      if "j \<in> set ids" and "clients s j = Some d" for j d
    proof -
      from that fresh have "j \<noteq> i" by blast
      with Cons.prems(2) c that(2) have "Send d \<noteq> Send c"
        unfolding own_queues_def by blast
      then show ?thesis by simp
    qed
    have room1: "\<forall>j\<in>set ids. \<forall>d. clients ?s1 j = Some d \<and> j \<noteq> ClientID b \<longrightarrow>
           \<not> ch_closed (chans ?s1 (Send d)) \<and>
           length (ch_buf (chans ?s1 (Send d))) < ch_cap (chans ?s1 (Send d))"
    proof (intro ballI allI impI)
      fix j d
      assume j: "j \<in> set ids" and "clients ?s1 j = Some d \<and> j \<noteq> ClientID b"
      then have d: "clients s j = Some d" and nj: "j \<noteq> ClientID b" by simp_all
      from Cons.prems(3) j d nj have "\<not> ch_closed (chans s (Send d)) \<and>
           length (ch_buf (chans s (Send d))) < ch_cap (chans s (Send d))"
        by simp
      with other [OF j d] show "\<not> ch_closed (chans ?s1 (Send d)) \<and>
           length (ch_buf (chans ?s1 (Send d))) < ch_cap (chans ?s1 (Send d))"
        by (simp only: simp_thms)
    qed
    have own1: "own_queues ?s1"
      using Cons.prems(2) by (simp add: own_queues_def)
    from Cons.IH [OF dist own1 room1] obtain s' where
      s': "broadcastLoop b ids ?s1 = Returned s'" "clients s' = clients ?s1"
        "userClients s' = userClients ?s1"
        "\<forall>a. chans s' a = (if a \<in> targets ?s1 b ids then appended (chans ?s1 a) (Message b)
                               else chans ?s1 a)"
      by blast
    have tg: "targets ?s1 b ids = targets s b ids"
      by (rule targets_cong) simp
    have "chans s' a = (if a \<in> targets s b (i # ids) then appended (chans s a) (Message b)
                               else chans s a)" for a
    proof (cases "a = Send c")
      case True
      with s'(4) tg notin show ?thesis
        by (simp add: targets_Cons [OF c ne])
    next
      case False
      with s'(4) tg show ?thesis
        by (simp add: targets_Cons [OF c ne])
    qed
    with step s'(1,2,3) show ?thesis by simp
  qed
qed

lemma broadcast_delivers:
  assumes ord: "range_order s order" and own: "own_queues s"
    and rm: "room s (ClientID b) (Suc k)"
  shows "\<exists>s'. handle order (Broadcast b) s = Returned s' \<and> clients s' = clients s \<and>
           userClients s' = userClients s \<and>
           (\<forall>i c. clients s i = Some c \<longrightarrow>
              chans s' (Send c) = (if i = ClientID b then chans s (Send c)
                                   else appended (chans s (Send c)) (Message b)))"
proof -
  from ord have dist: "distinct order" and dom: "set order = dom (clients s)"
    by (simp_all add: range_order_def)
  from rm have "\<forall>i\<in>set order. \<forall>c. clients s i = Some c \<and> i \<noteq> ClientID b \<longrightarrow>
           \<not> ch_closed (chans s (Send c)) \<and>
           length (ch_buf (chans s (Send c))) < ch_cap (chans s (Send c))"
    unfolding room_def by fastforce
  from broadcastLoop_delivers [OF dist own this] obtain s' where
    s': "broadcastLoop b order s = Returned s'" "clients s' = clients s"
      "userClients s' = userClients s"
      "\<And>a. chans s' a = (if a \<in> targets s b order then appended (chans s a) (Message b)
                           else chans s a)"
    by blast
  have "(Send c \<in> targets s b order) = (i \<noteq> ClientID b)" if c: "clients s i = Some c" for i c
  proof
    assume "Send c \<in> targets s b order"
    then obtain j d where "j \<noteq> ClientID b" "clients s j = Some d" "Send d = Send c"
      unfolding targets_def by blast
    with own c have "j = i" unfolding own_queues_def by blast
    with \<open>j \<noteq> ClientID b\<close> show "i \<noteq> ClientID b" by simp
  next
    assume "i \<noteq> ClientID b"
    moreover from c dom have "i \<in> set order" by blast
    ultimately show "Send c \<in> targets s b order"
      using c unfolding targets_def by blast
  qed
  with s'(4) have "\<forall>i c. clients s i = Some c \<longrightarrow>
              chans s' (Send c) = (if i = ClientID b then chans s (Send c)
                                   else appended (chans s (Send c)) (Message b))"
    by simp
  with s'(1,2,3) show ?thesis
    by (simp add: broadcastMessage_def)
qed

lemma Run_broadcasts:
  assumes "own_queues s" and "\<forall>(order, m)\<in>set oms. range_order s order"
    and "room s A (length oms)"
  shows "\<exists>s'. Run (broadcasts_from A oms) s = Returned s' \<and> clients s' = clients s \<and>
           userClients s' = userClients s \<and>
           (\<forall>i c. clients s i = Some c \<longrightarrow>
              ch_buf (chans s' (Send c)) =
                ch_buf (chans s (Send c)) @ (if i = A then [] else map snd oms))"
  using assms
proof (induction oms arbitrary: s)
  case Nil
  then show ?case by (simp add: broadcasts_from_def)
next
  case (Cons om oms)
  obtain order m where om: "om = (order, m)" by (cases om)
  let ?b = "\<lparr>ClientID = A, Message = m\<rparr>"
  from Cons.prems(2) om have ord: "range_order s order" by simp
  from Cons.prems(3) have rm: "room s (ClientID ?b) (Suc (length oms))" by simp
  from broadcast_delivers [OF ord Cons.prems(1) rm] obtain s1 where
    s1: "handle order (Broadcast ?b) s = Returned s1" "clients s1 = clients s"
      "userClients s1 = userClients s"
      "\<And>i c. clients s i = Some c \<Longrightarrow>
          chans s1 (Send c) = (if i = A then chans s (Send c) else appended (chans s (Send c)) m)"
    by auto
  have own1: "own_queues s1"
    using Cons.prems(1) s1(2) by (simp add: own_queues_def)
  have ord1: "\<forall>(order, m)\<in>set oms. range_order s1 order"
    using Cons.prems(2) s1(2) by (auto simp: range_order_def)
  have rm1: "room s1 A (length oms)"
    unfolding room_def
  proof (intro allI impI)
    fix i c
    assume "clients s1 i = Some c \<and> i \<noteq> A"
    then have c: "clients s i = Some c" and ne: "i \<noteq> A" using s1(2) by simp_all
    from Cons.prems(3) c ne have "\<not> ch_closed (chans s (Send c)) \<and>
        length (ch_buf (chans s (Send c))) + Suc (length oms) \<le> ch_cap (chans s (Send c))"
      unfolding room_def by simp
    with s1(4) [OF c] ne show "\<not> ch_closed (chans s1 (Send c)) \<and>
        length (ch_buf (chans s1 (Send c))) + length oms \<le> ch_cap (chans s1 (Send c))"
      by (simp add: appended_def)
  qed
  from Cons.IH [OF own1 ord1 rm1] obtain s' where
    s': "Run (broadcasts_from A oms) s1 = Returned s'" "clients s' = clients s1"
      "userClients s' = userClients s1"
      "\<And>i c. clients s1 i = Some c \<Longrightarrow>
          ch_buf (chans s' (Send c)) =
            ch_buf (chans s1 (Send c)) @ (if i = A then [] else map snd oms)"
    by blast
  have run: "Run (broadcasts_from A (om # oms)) s = Returned s'"
    using s1(1) s'(1) om by (simp add: broadcasts_from_def)
  have "ch_buf (chans s' (Send c)) =
          ch_buf (chans s (Send c)) @ (if i = A then [] else map snd (om # oms))"
    if c: "clients s i = Some c" for i c
  proof -
    from c s1(2) have "clients s1 i = Some c" by simp
    from s'(4) [OF this] s1(4) [OF c] om show ?thesis
      by (simp add: appended_def)
  qed
  with run s'(2,3) s1(2,3) show ?case by simp
qed

lemma trio_eq:
  "trio = \<lparr>clients = [''A'' \<mapsto> conn_a, ''B'' \<mapsto> conn_b, ''C'' \<mapsto> conn_c],
           userClients = [1 \<mapsto> ''A'', 2 \<mapsto> ''B'', 3 \<mapsto> ''C''], chans = fresh_store\<rparr>"
  by (simp add: trio_def registerClient_eq NewHub_def conn_a_def conn_b_def conn_c_def)

lemma trio_own: "own_queues trio"
  by (auto simp: own_queues_def trio_eq conn_a_def conn_b_def conn_c_def split: if_splits)

lemma trio_order: "range_order trio [''A'', ''B'', ''C'']" "range_order trio [''C'', ''B'', ''A'']"
  by (auto simp: range_order_def trio_eq)

lemma trio_room: "k \<le> 256 \<Longrightarrow> room trio origin k"
  by (simp add: room_def trio_eq fresh_store_def new_chan_def)

text \<open>
  The standing conditions of fan-out hold of the empty hub and are kept by every request
  the hub returns from.
\<close>

lemma broadcastLoop_Returned_flags:
  "broadcastLoop b ids s = Returned s' \<Longrightarrow>
     clients s' = clients s \<and> (\<forall>a. ch_closed (chans s' a) = ch_closed (chans s a))"
proof (induction ids arbitrary: s)
  case Nil
  then show ?case by simp
next
  case (Cons i ids)
  show ?case
  proof (cases "clients s i = None \<or> i = ClientID b")
    case True
    with Cons.prems have "broadcastLoop b ids s = Returned s'"
      by (auto split: option.splits)
    then show ?thesis by (rule Cons.IH)
  next
    case False
    then obtain c where c: "clients s i = Some c" and ne: "i \<noteq> ClientID b" by auto
    from Cons.prems c ne obtain ch where
      sent: "chan_send (chans s (Send c)) (Message b) = Sent ch"
      and rest: "broadcastLoop b ids (s\<lparr>chans := (chans s)(Send c := ch)\<rparr>) = Returned s'"
      by (auto split: send_result.splits option.splits)
    from sent have "ch_closed ch = ch_closed (chans s (Send c))"
      by (auto simp: chan_send_def split: if_splits)
    with Cons.IH [OF rest] show ?thesis by auto
  qed
qed

lemma sound_queues_NewHub: "sound_queues (NewHub store)"
  by (simp add: sound_queues_def own_queues_def NewHub_def)

lemma sound_queues_handle:
  assumes snd: "sound_queues s" and made: "as_made s r"
    and ret: "handle order r s = Returned s'"
  shows "sound_queues s'"
proof (cases r)
  case (Register c)
  with ret have s': "s' = s\<lparr>clients := (clients s)(ID c \<mapsto> c),
                 userClients := (userClients s)(UserID c \<mapsto> ID c)\<rparr>"
    by (simp add: registerClient_eq)
  from made Register have new: "\<not> ch_closed (chans s (Send c))"
    "\<And>i d. clients s i = Some d \<Longrightarrow> Send d \<noteq> Send c"
    by simp_all
  from snd have own: "\<And>i j c d. clients s i = Some c \<Longrightarrow> clients s j = Some d \<Longrightarrow>
      Send c = Send d \<Longrightarrow> i = j"
    and opn: "\<And>i c. clients s i = Some c \<Longrightarrow> \<not> ch_closed (chans s (Send c))"
    unfolding sound_queues_def own_queues_def by blast+
  have cl: "clients s' = (clients s)(ID c \<mapsto> c)" and ch: "chans s' = chans s"
    by (simp_all add: s')
  have "i = j" if e: "clients s' i = Some e" and f: "clients s' j = Some f"
    and same: "Send e = Send f" for i j e f
  proof (cases "i = ID c")
    case True
    with e cl have ec: "e = c" by simp
    show ?thesis
    proof (cases "j = ID c")
      case True
      with \<open>i = ID c\<close> show ?thesis by simp
    next
      case False
      with f cl have "clients s j = Some f" by simp
      from new(2) [OF this] same ec show ?thesis by simp
    qed
  next
    case False
    with e cl have re: "clients s i = Some e" by simp
    show ?thesis
    proof (cases "j = ID c")
      case True
      with f cl have "f = c" by simp
      with new(2) [OF re] same show ?thesis by simp
    next
      case False
      with f cl have "clients s j = Some f" by simp
      from own [OF re this same] show ?thesis .
    qed
  qed
  then have "own_queues s'"
    unfolding own_queues_def by blast
  moreover have "\<not> ch_closed (chans s' (Send e))" if e: "clients s' i = Some e" for i e
  proof (cases "i = ID c")
    case True
    with e cl have "e = c" by simp
    with new(1) ch show ?thesis by simp
  next
    case False
    with e cl have "clients s i = Some e" by simp
    from opn [OF this] ch show ?thesis by simp
  qed
  ultimately show ?thesis by (simp add: sound_queues_def)
next
  case (Unregister c)
  show ?thesis
  proof (cases "clients s (ID c)")
    case None
    with ret Unregister snd show ?thesis by (simp add: unregisterClient_def)
  next
    case (Some d)
    with made Unregister have reg: "clients s (ID c) = Some c" by simp
    from ret Unregister reg have cl: "clients s' = (clients s)(ID c := None)"
      and ch: "chans s' = (chans s)(Send c := chans s (Send c)\<lparr>ch_closed := True\<rparr>)"
      by (auto simp: unregisterClient_def notifyUserLeave_def Let_def chan_close_def
          split: option.splits if_splits)
    from snd have own: "\<And>i j c d. clients s i = Some c \<Longrightarrow> clients s j = Some d \<Longrightarrow>
        Send c = Send d \<Longrightarrow> i = j"
      and opn: "\<And>i c. clients s i = Some c \<Longrightarrow> \<not> ch_closed (chans s (Send c))"
      unfolding sound_queues_def own_queues_def by blast+
    have "own_queues s'"
      unfolding own_queues_def cl using own by (auto split: if_splits)
    moreover have "\<not> ch_closed (chans s' (Send e))" if e: "clients s' i = Some e" for i e
    proof -
      from e cl have ne: "i \<noteq> ID c" and reg': "clients s i = Some e"
        by (auto split: if_splits)
      from own [OF reg' reg] ne have "Send e \<noteq> Send c" by blast
      with ch opn [OF reg'] show ?thesis by simp
    qed
    ultimately show ?thesis by (simp add: sound_queues_def)
  qed
next
  case (Broadcast b)
  with ret have "broadcastLoop b order s = Returned s'"
    by (simp add: broadcastMessage_def)
  from broadcastLoop_Returned_flags [OF this] snd show ?thesis
    by (simp add: sound_queues_def own_queues_def)
qed

text \<open>
  C3. Take a hub state in which every registered connection has its own queue (as in
  every state the hub reaches, see above), a registered connection A, and successive
  Broadcast requests from A with messages \<open>map snd oms\<close>, each met by some
  \<^verbatim>\<open>range\<close> order, such that no queue of another connection overflows (each is open with room for all the messages). Then every request
  returns, membership is unchanged, A's own queue is unchanged, and the connections whose
  queue has the messages appended, in submission order, are exactly the registered
  connections other than A; there are N - 1 of them. A single Broadcast is the case of a
  one-element \<open>oms\<close>.
\<close>

theorem C3_broadcast_reaches_others_in_order:
  assumes own: "own_queues s" and reg: "clients s A \<noteq> None"
    and ord: "\<forall>(order, m)\<in>set oms. range_order s order"
    and rm: "room s A (length oms)" and ne: "oms \<noteq> []"
  shows "\<exists>s'. Run (broadcasts_from A oms) s = Returned s' \<and>
           clients s' = clients s \<and> userClients s' = userClients s \<and>
           queue_of s' A = queue_of s A \<and>
           {i \<in> dom (clients s). queue_of s' i = queue_of s i @ map snd oms} =
             dom (clients s) - {A} \<and>
           card {i \<in> dom (clients s). queue_of s' i = queue_of s i @ map snd oms} =
             card (dom (clients s)) - 1"
proof -
  from Run_broadcasts [OF own ord rm] obtain s' where
    s': "Run (broadcasts_from A oms) s = Returned s'" "clients s' = clients s"
      "userClients s' = userClients s"
      "\<And>i c. clients s i = Some c \<Longrightarrow>
          ch_buf (chans s' (Send c)) =
            ch_buf (chans s (Send c)) @ (if i = A then [] else map snd oms)"
    by blast
  have q: "queue_of s' i = queue_of s i @ (if i = A then [] else map snd oms)"
    if "i \<in> dom (clients s)" for i
    using that s'(2) s'(4) by (auto simp: queue_of_def)
  from reg have A: "A \<in> dom (clients s)" by blast
  from q [OF A] have qa: "queue_of s' A = queue_of s A" by simp
  have "(queue_of s' i = queue_of s i @ map snd oms) = (i \<noteq> A)"
    if "i \<in> dom (clients s)" for i
    using q [OF that] qa ne by (cases "i = A") simp_all
  then have recv: "{i \<in> dom (clients s). queue_of s' i = queue_of s i @ map snd oms} =
             dom (clients s) - {A}"
    by blast
  from ne ord obtain order where "range_order s order"
    by (cases oms) auto
  then have "finite (dom (clients s))"
    unfolding range_order_def by (metis List.finite_set)
  with A have "card (dom (clients s) - {A}) = card (dom (clients s)) - 1"
    by simp
  with s'(1,2,3) qa recv show ?thesis by simp
qed

theorem C3_broadcast_reaches_others_in_order_witness:
  "own_queues trio \<and> clients trio ''A'' \<noteq> None \<and>
   range_order trio [''A'', ''B'', ''C''] \<and> range_order trio [''C'', ''B'', ''A''] \<and>
   room trio ''A'' (length [([''A'', ''B'', ''C''], ''m1''), ([''C'', ''B'', ''A''], ''m2'')]) \<and>
   (\<exists>s'. Run (broadcasts_from ''A'' [([''A'', ''B'', ''C''], ''m1''), ([''C'', ''B'', ''A''], ''m2'')]) trio = Returned s' \<and>
      queue_of s' ''A'' = [] \<and> queue_of s' ''B'' = [''m1'', ''m2''] \<and> queue_of s' ''C'' = [''m1'', ''m2''] \<and>
      card {i \<in> dom (clients trio). queue_of s' i = queue_of trio i @ [''m1'', ''m2'']} = 2)"
proof -
  let ?oms = "[([''A'', ''B'', ''C''], ''m1''), ([''C'', ''B'', ''A''], ''m2'')]"
  have reg: "clients trio ''A'' \<noteq> None" by (simp add: trio_eq)
  have ord: "\<forall>(order, m)\<in>set ?oms. range_order trio order"
    using trio_order by simp
  have rm: "room trio ''A'' (length ?oms)" by (rule trio_room) simp
  have ne: "?oms \<noteq> []" by simp
  have q0: "queue_of trio ''A'' = []" "queue_of trio ''B'' = []" "queue_of trio ''C'' = []"
    by (simp_all add: trio_eq queue_of_def fresh_store_def new_chan_def)
  have d: "dom (clients trio) = {''A'', ''B'', ''C''}"
    by (auto simp: trio_eq)
  from C3_broadcast_reaches_others_in_order [OF trio_own reg ord rm ne] obtain s' where
    s': "Run (broadcasts_from ''A'' ?oms) trio = Returned s'"
      "queue_of s' ''A'' = queue_of trio ''A''"
      "{i \<in> dom (clients trio). queue_of s' i = queue_of trio i @ map snd ?oms} = dom (clients trio) - {''A''}"
      "card {i \<in> dom (clients trio). queue_of s' i = queue_of trio i @ map snd ?oms} = card (dom (clients trio)) - 1"
    by blast
  from s'(3) d have "''B'' \<in> {i \<in> dom (clients trio). queue_of s' i = queue_of trio i @ map snd ?oms}"
    "''C'' \<in> {i \<in> dom (clients trio). queue_of s' i = queue_of trio i @ map snd ?oms}"
    by simp_all
  then have qb: "queue_of s' ''B'' = [''m1'', ''m2'']" and qc: "queue_of s' ''C'' = [''m1'', ''m2'']"
    using q0 by simp_all
  from s'(4) d have "card {i \<in> dom (clients trio). queue_of s' i = queue_of trio i @ [''m1'', ''m2'']} = 2"
    by simp
  with s'(1) s'(2) q0 qb qc
  have ex: "\<exists>s'. Run (broadcasts_from ''A'' ?oms) trio = Returned s' \<and>
      queue_of s' ''A'' = [] \<and> queue_of s' ''B'' = [''m1'', ''m2''] \<and> queue_of s' ''C'' = [''m1'', ''m2''] \<and>
      card {i \<in> dom (clients trio). queue_of s' i = queue_of trio i @ [''m1'', ''m2'']} = 2"
    by (intro exI [of _ s']) simp
  show ?thesis
    by (intro conjI) (rule trio_own reg trio_order rm ex)+
qed

section \<open>A Broadcast whose origin is not registered\<close>

text \<open>
  C5, as the spec has it, fails: \<^verbatim>\<open>broadcastMessage\<close> never looks the origin up. With
  A, B and C registered, a Broadcast tagged with the unregistered ID Z is not dropped:
  B's queue, empty before, holds the message afterwards.
\<close>

theorem C5_counterexample:
  "clients trio ''Z'' = None \<and>
   (\<exists>s'. handle [''A'', ''B'', ''C''] (Broadcast \<lparr>ClientID = ''Z'', Message = ''m''\<rparr>) trio = Returned s' \<and>
      queue_of trio ''B'' = [] \<and> queue_of s' ''B'' = [''m''])"
  by (simp add: trio_eq broadcastMessage_def chan_send_def fresh_store_def new_chan_def
      queue_of_def conn_a_def conn_b_def conn_c_def)

text \<open>
  C5, as the code has it. A Broadcast request whose origin connection ID is not registered
  leaves the membership structures unchanged, and it is fanned out like any other: when no
  queue overflows, every registered connection has the message appended to its outbound
  queue.
\<close>

theorem C5_unregistered_origin_reaches_everyone:
  assumes own: "own_queues s" and unreg: "clients s (ClientID b) = None"
    and ord: "range_order s order" and rm: "room s (ClientID b) 1"
  shows "\<exists>s'. handle order (Broadcast b) s = Returned s' \<and>
           clients s' = clients s \<and> userClients s' = userClients s \<and>
           (\<forall>i\<in>dom (clients s). queue_of s' i = queue_of s i @ [Message b])"
proof -
  from rm have "room s (ClientID b) (Suc 0)" by simp
  from broadcast_delivers [OF ord own this] obtain s' where
    s': "handle order (Broadcast b) s = Returned s'" "clients s' = clients s"
      "userClients s' = userClients s"
      "\<And>i c. clients s i = Some c \<Longrightarrow>
          chans s' (Send c) = (if i = ClientID b then chans s (Send c)
                                   else appended (chans s (Send c)) (Message b))"
    by blast
  have "queue_of s' i = queue_of s i @ [Message b]" if "i \<in> dom (clients s)" for i
  proof -
    from that obtain c where c: "clients s i = Some c" by blast
    with unreg have "i \<noteq> ClientID b" by auto
    with s'(4) [OF c] c s'(2) show ?thesis
      by (simp add: queue_of_def appended_def)
  qed
  with s'(1,2,3) show ?thesis by blast
qed

theorem C5_unregistered_origin_reaches_everyone_witness:
  "own_queues trio \<and> clients trio (ClientID \<lparr>ClientID = ''Z'', Message = ''m''\<rparr>) = None \<and>
   range_order trio [''A'', ''B'', ''C''] \<and> room trio (ClientID \<lparr>ClientID = ''Z'', Message = ''m''\<rparr>) 1 \<and>
   (\<exists>s'. handle [''A'', ''B'', ''C''] (Broadcast \<lparr>ClientID = ''Z'', Message = ''m''\<rparr>) trio = Returned s' \<and>
           clients s' = clients trio \<and> userClients s' = userClients trio \<and>
           (\<forall>i\<in>dom (clients trio). queue_of s' i = queue_of trio i @ [Message \<lparr>ClientID = ''Z'', Message = ''m''\<rparr>]))"
proof -
  let ?b = "\<lparr>ClientID = ''Z'', Message = ''m''\<rparr>"
  have unreg: "clients trio (ClientID ?b) = None" by (simp add: trio_eq)
  have rm: "room trio (ClientID ?b) 1" by (rule trio_room) simp
  from trio_own unreg trio_order(1) rm
    C5_unregistered_origin_reaches_everyone [OF trio_own unreg trio_order(1) rm]
  show ?thesis by blast
qed

section \<open>Enqueueing on a full queue\<close>

lemma broadcastLoop_append:
  "broadcastLoop b (xs @ ys) s =
     (case broadcastLoop b xs s of
        Returned s1 \<Rightarrow> broadcastLoop b ys s1
      | Blocked w s1 \<Rightarrow> Blocked w s1
      | Panicked s1 \<Rightarrow> Panicked s1)"
  by (induction xs arbitrary: s) (auto split: option.splits send_result.splits)

lemma broadcastLoop_never_waits:
  "broadcastLoop b ids s \<noteq> Blocked (SendQueueFull a) t"
  by (induction ids arbitrary: s) (auto split: option.splits send_result.splits)

lemma broadcastLoop_full:
  assumes "clients s r = Some c" and "r \<noteq> ClientID b"
    and "\<not> ch_closed (chans s (Send c))"
    and "ch_cap (chans s (Send c)) \<le> length (ch_buf (chans s (Send c)))"
  shows "broadcastLoop b (r # post) s =
           Blocked (HubUnregister c) (s\<lparr>chans := (chans s)(Send c := chans s (Send c)\<lparr>ch_closed := True\<rparr>)\<rparr>)"
  using assms by (simp add: chan_send_def chan_close_def)

lemma jam_eq:
  "jam = \<lparr>clients = [''A'' \<mapsto> conn_a, ''B'' \<mapsto> conn_b, ''C'' \<mapsto> conn_c],
          userClients = [1 \<mapsto> ''A'', 2 \<mapsto> ''B'', 3 \<mapsto> ''C''],
          chans = fresh_store(1 := \<lparr>ch_buf = replicate 256 ''m'', ch_cap = 256, ch_closed = False\<rparr>)\<rparr>"
  by (simp add: jam_def trio_eq conn_b_def)

text \<open>
  C2, as the spec has it, fails. With A, B and C registered and B's queue full, a
  Broadcast from A whose \<^verbatim>\<open>range\<close> visits B first closes B's queue and then parks the
  hub on its own \<^verbatim>\<open>Unregister\<close> channel: whatever requests follow, B is still in both
  membership structures and C has not received the message. And \<^verbatim>\<open>sendError\<close> for B,
  with B's queue full, waits on the queue; B stays registered and its queue open.
\<close>

theorem C2_counterexample:
  "(\<forall>rest. \<exists>s'. Run (([''B'', ''C'', ''A''], Broadcast \<lparr>ClientID = ''A'', Message = ''x''\<rparr>) # rest) jam =
        Blocked (HubUnregister conn_b) s' \<and>
      clients s' ''B'' = Some conn_b \<and> userClients s' 2 = Some ''B'' \<and> queue_of s' ''C'' = []) \<and>
   sendError (\<lambda>m. Some ''e'') ''t'' conn_b ''Invalid message format'' jam =
     Blocked (SendQueueFull (Send conn_b)) jam \<and>
   clients jam ''B'' = Some conn_b \<and> \<not> ch_closed (chans jam (Send conn_b))"
  by (simp add: jam_eq broadcastMessage_def chan_send_def chan_close_def sendError_def
      fresh_store_def new_chan_def queue_of_def conn_a_def conn_b_def conn_c_def)

text \<open>
  C2, as the code has it. During fan-out the enqueue is non-blocking: the hub never
  waits on a recipient's queue. When the loop reaches a recipient whose queue is open and
  full, after recipients that could take the message, nothing is appended to that queue
  and the queue is closed, and the recipients visited before have the message appended.
  The enqueue of an error envelope by the inbound pump (\<^verbatim>\<open>sendError\<close>, once the
  envelope is encoded) is a plain send: on a full queue it waits, and the hub state is as
  before (the connection is neither unregistered nor closed).
\<close>

theorem C2_enqueue_on_full_queue:
  assumes own: "own_queues s" and ord: "range_order s (pre @ r # post)"
    and reg: "clients s r = Some c" and ne: "r \<noteq> ClientID b"
    and opn: "\<not> ch_closed (chans s (Send c))"
    and full: "ch_cap (chans s (Send c)) \<le> length (ch_buf (chans s (Send c)))"
    and pre: "can_take s b pre"
    and enc: "marshal \<lparr>Type = EventTypeError, Timestamp = now, Payload = error_payload errMsg\<rparr> = Some data"
  shows "(\<forall>a t. broadcastMessage (pre @ r # post) b s \<noteq> Blocked (SendQueueFull a) t) \<and>
         ch_closed (chans (state_of (broadcastMessage (pre @ r # post) b s)) (Send c)) \<and>
         ch_buf (chans (state_of (broadcastMessage (pre @ r # post) b s)) (Send c)) =
           ch_buf (chans s (Send c)) \<and>
         (\<forall>i\<in>set pre. i \<noteq> ClientID b \<longrightarrow>
            queue_of (state_of (broadcastMessage (pre @ r # post) b s)) i =
              queue_of s i @ [Message b]) \<and>
         sendError marshal now c errMsg s = Blocked (SendQueueFull (Send c)) s"
proof -
  from ord have dist: "distinct pre" and fresh: "r \<notin> set pre"
    and dom: "set pre \<subseteq> dom (clients s)"
    by (auto simp: range_order_def)
  from pre have "\<forall>i\<in>set pre. \<forall>c. clients s i = Some c \<and> i \<noteq> ClientID b \<longrightarrow>
           \<not> ch_closed (chans s (Send c)) \<and>
           length (ch_buf (chans s (Send c))) < ch_cap (chans s (Send c))"
    by (simp add: can_take_def)
  from broadcastLoop_delivers [OF dist own this] obtain s1 where
    s1: "broadcastLoop b pre s = Returned s1" "clients s1 = clients s"
      "\<And>a. chans s1 a = (if a \<in> targets s b pre then appended (chans s a) (Message b)
                           else chans s a)"
    by blast
  have same: "chans s1 (Send c) = chans s (Send c)"
    using s1(3) targets_fresh [OF own reg fresh] by simp
  let ?s' = "s1\<lparr>chans := (chans s1)(Send c := chans s1 (Send c)\<lparr>ch_closed := True\<rparr>)\<rparr>"
  have "broadcastLoop b (r # post) s1 = Blocked (HubUnregister c) ?s'"
    using reg ne opn full s1(2) same by (intro broadcastLoop_full) simp_all
  with s1(1) have out: "broadcastMessage (pre @ r # post) b s = Blocked (HubUnregister c) ?s'"
    by (simp add: broadcastMessage_def broadcastLoop_append)
  have "queue_of ?s' i = queue_of s i @ [Message b]" if i: "i \<in> set pre" "i \<noteq> ClientID b" for i
  proof -
    from i(1) dom obtain d where d: "clients s i = Some d" by blast
    with i have t: "Send d \<in> targets s b pre"
      unfolding targets_def by blast
    from i(1) fresh have "i \<noteq> r" by blast
    with own d reg have "Send d \<noteq> Send c"
      unfolding own_queues_def by blast
    with t s1(3) d s1(2) show ?thesis
      by (simp add: queue_of_def appended_def)
  qed
  moreover have "sendError marshal now c errMsg s = Blocked (SendQueueFull (Send c)) s"
    using enc opn full by (simp add: sendError_def chan_send_def)
  ultimately show ?thesis
    using out same by simp
qed

theorem C2_enqueue_on_full_queue_witness:
  "ch_cap (chans jam (Send conn_b)) \<le> length (ch_buf (chans jam (Send conn_b))) \<and>
   ch_closed (chans (state_of (broadcastMessage ([''C''] @ ''B'' # [''A''])
       \<lparr>ClientID = ''A'', Message = ''x''\<rparr> jam)) (Send conn_b)) \<and>
   queue_of (state_of (broadcastMessage ([''C''] @ ''B'' # [''A''])
       \<lparr>ClientID = ''A'', Message = ''x''\<rparr> jam)) ''C'' = [''x''] \<and>
   sendError (\<lambda>m. Some ''e'') ''t'' conn_b ''Unknown message type'' jam =
     Blocked (SendQueueFull (Send conn_b)) jam"
proof -
  let ?b = "\<lparr>ClientID = ''A'', Message = ''x''\<rparr>"
  have own: "own_queues jam"
    by (auto simp: own_queues_def jam_eq conn_a_def conn_b_def conn_c_def split: if_splits)
  have ord: "range_order jam ([''C''] @ ''B'' # [''A''])"
    by (auto simp: range_order_def jam_eq)
  have reg: "clients jam ''B'' = Some conn_b" by (simp add: jam_eq)
  have ne: "''B'' \<noteq> ClientID ?b" by simp
  have opn: "\<not> ch_closed (chans jam (Send conn_b))" by (simp add: jam_eq conn_b_def)
  have full: "ch_cap (chans jam (Send conn_b)) \<le> length (ch_buf (chans jam (Send conn_b)))"
    by (simp add: jam_eq conn_b_def)
  have pre: "can_take jam ?b [''C'']"
    by (simp add: can_take_def jam_eq conn_c_def fresh_store_def new_chan_def)
  have enc: "(\<lambda>m. Some ''e'') \<lparr>Type = EventTypeError, Timestamp = ''t'',
      Payload = error_payload ''Unknown message type''\<rparr> = Some ''e''" by simp
  have q: "queue_of jam ''C'' = []"
    by (simp add: queue_of_def jam_eq conn_c_def fresh_store_def new_chan_def)
  from C2_enqueue_on_full_queue [OF own ord reg ne opn full pre enc] q full
  show ?thesis by simp
qed

section \<open>The inbound pump\<close>

lemma processMessage_dispatch:
  assumes "unmarshal data = Some msg"
    and "Type msg = EventTypeMessage \<or> Type msg = EventTypeTyping"
  shows "processMessage unmarshal marshal now c data s =
           Returned ([Broadcast \<lparr>ClientID = ID c, Message = Payload msg\<rparr>], s)"
  using assms
  by (auto simp: processMessage_def handleChatMessage_def handleTypingEvent_def)

text \<open>
  C8 at the failing input: a frame that decodes into a read-receipt envelope. The body of
  \<^verbatim>\<open>handleReadReceipt\<close> is empty, so \<^verbatim>\<open>processMessage\<close> returns with no request
  handed to the hub (and nothing sent to the client), where the claim expects a Broadcast
  request tagged with the connection's ID.
\<close>

theorem C8_read_receipt_not_dispatched:
  "processMessage (\<lambda>d. Some \<lparr>Type = EventTypeReadReceipt, Timestamp = ts, Payload = p\<rparr>)
     marshal now c data s = Returned ([], s)"
  by (simp add: processMessage_def handleReadReceipt_def EventTypeReadReceipt_def
      EventTypeMessage_def EventTypeTyping_def)

lemma duo_eq:
  "duo = \<lparr>clients = [''A'' \<mapsto> conn_a, ''B'' \<mapsto> conn_b],
          userClients = [1 \<mapsto> ''A'', 2 \<mapsto> ''B''], chans = fresh_store\<rparr>"
  by (simp add: duo_def registerClient_eq NewHub_def conn_a_def conn_b_def)

text \<open>
  C7, as the spec has it, fails. With A and B registered, A's pump processes the frame
  \<^verbatim>\<open>{"type":"message","payload":{"text":"hi"}}\<close>: \<^verbatim>\<open>handleChatMessage\<close> hands the hub
  the payload only, so B's queue receives \<^verbatim>\<open>{"text":"hi"}\<close> and not the envelope.
\<close>

theorem C7_counterexample:
  "\<exists>s'. inbound_frame unmarshal_hi (\<lambda>m. None) ''t'' [''A'', ''B''] conn_a frame_hi duo = Returned s' \<and>
     queue_of duo ''B'' = [] \<and> queue_of s' ''B'' = [payload_hi] \<and> payload_hi \<noteq> frame_hi \<and>
     frame_hi \<notin> set (queue_of s' ''B'')"
  by (simp add: inbound_frame_def processMessage_def unmarshal_hi_def decoded_hi_def
      EventTypeMessage_def handleChatMessage_def broadcastMessage_def chan_send_def duo_eq
      fresh_store_def new_chan_def queue_of_def conn_a_def conn_b_def frame_hi_def payload_hi_def)

text \<open>
  C7, as the code has it. When connection A and another connection B are registered (each
  with its own queue, no queue overflowing) and A's inbound pump processes the frame
  \<^verbatim>\<open>{"type":"message","payload":{"text":"hi"}}\<close>, decoded by \<^verbatim>\<open>json.Unmarshal\<close> into
  type \<^verbatim>\<open>message\<close> and payload \<^verbatim>\<open>{"text":"hi"}\<close>, B's outbound queue receives exactly
  the payload bytes \<^verbatim>\<open>{"text":"hi"}\<close>, byte-identical and without the envelope around
  them, and A's outbound queue receives nothing.
\<close>

theorem C7_payload_forwarded:
  assumes dec: "unmarshal frame_hi = Some msg" and ty: "Type msg = ''message''"
    and pl: "Payload msg = payload_hi"
    and regA: "clients s (ID a) = Some a" and regB: "clients s i \<noteq> None" and ne: "i \<noteq> ID a"
    and own: "own_queues s" and ord: "range_order s order" and rm: "room s (ID a) 1"
  shows "\<exists>s'. inbound_frame unmarshal marshal now order a frame_hi s = Returned s' \<and>
           queue_of s' i = queue_of s i @ [payload_hi] \<and>
           queue_of s' (ID a) = queue_of s (ID a)"
proof -
  let ?b = "\<lparr>ClientID = ID a, Message = payload_hi\<rparr>"
  from ty have "Type msg = EventTypeMessage \<or> Type msg = EventTypeTyping"
    by (simp add: EventTypeMessage_def)
  from processMessage_dispatch [of unmarshal frame_hi msg marshal now a s, OF dec this] pl
  have pm: "processMessage unmarshal marshal now a frame_hi s = Returned ([Broadcast ?b], s)"
    by simp
  from rm have "room s (ClientID ?b) (Suc 0)" by simp
  from broadcast_delivers [OF ord own this] obtain s' where
    s': "handle order (Broadcast ?b) s = Returned s'" "clients s' = clients s"
      "\<And>j c. clients s j = Some c \<Longrightarrow>
          chans s' (Send c) = (if j = ID a then chans s (Send c)
                               else appended (chans s (Send c)) payload_hi)"
    by auto
  from regB obtain c where c: "clients s i = Some c" by blast
  from s'(3) [OF c] ne c s'(2) have "queue_of s' i = queue_of s i @ [payload_hi]"
    by (simp add: queue_of_def appended_def)
  moreover from s'(3) [OF regA] regA s'(2) have "queue_of s' (ID a) = queue_of s (ID a)"
    by (simp add: queue_of_def)
  moreover from pm s'(1) have "inbound_frame unmarshal marshal now order a frame_hi s = Returned s'"
    by (simp add: inbound_frame_def)
  ultimately show ?thesis by blast
qed

theorem C7_payload_forwarded_witness:
  "\<exists>s'. inbound_frame unmarshal_hi (\<lambda>m. None) ''t'' [''B'', ''A''] conn_a frame_hi duo = Returned s' \<and>
     queue_of s' ''B'' = [payload_hi] \<and> queue_of s' ''A'' = []"
proof -
  have dec: "unmarshal_hi frame_hi = Some decoded_hi" by (simp add: unmarshal_hi_def)
  have ty: "Type decoded_hi = ''message''" and pl: "Payload decoded_hi = payload_hi"
    by (simp_all add: decoded_hi_def)
  have regA: "clients duo (ID conn_a) = Some conn_a" and regB: "clients duo ''B'' \<noteq> None"
    and ne: "''B'' \<noteq> ID conn_a"
    by (simp_all add: duo_eq conn_a_def)
  have own: "own_queues duo"
    by (auto simp: own_queues_def duo_eq conn_a_def conn_b_def split: if_splits)
  have ord: "range_order duo [''B'', ''A'']"
    by (auto simp: range_order_def duo_eq)
  have rm: "room duo (ID conn_a) 1"
    by (simp add: room_def duo_eq fresh_store_def new_chan_def)
  have q: "queue_of duo ''B'' = []" "queue_of duo ''A'' = []"
    by (simp_all add: queue_of_def duo_eq fresh_store_def new_chan_def)
  from C7_payload_forwarded [where unmarshal = unmarshal_hi and marshal = "\<lambda>m. None"
      and now = "''t''", OF dec ty pl regA regB ne own ord rm] q
  show ?thesis by (simp add: conn_a_def)
qed

end
